theory Spec2Isabelle
  imports Main "HOL-Library.Sublist"
begin

section \<open>Python values used by \<open>cc2olx/olx.py\<close>\<close>

text \<open>
  A Python \<open>str\<close> is a \<^typ>\<open>string\<close>, one \<^typ>\<open>char\<close> per code point. The
  alphabet is that of the code points 0 to 255, and the character classes below are
  those of Python on it. The result of \<open>urllib.parse.unquote\<close> can leave this alphabet;
  the function is modelled where it stays inside, and a predicate says where that is.

  The exceptions that the module and the library calls it makes can raise are values.
\<close>

datatype error =
    OlxExportException string
  | KeyError string
  | TypeError
  | AttributeError
  | HierarchyRequestErr
  | CollaboratorError string

text \<open>Sequencing of fallible steps: the first exception ends the computation.\<close>

definition bind :: "error + 'a \<Rightarrow> ('a \<Rightarrow> error + 'b) \<Rightarrow> error + 'b" where
  "bind m f = (case m of Inl e \<Rightarrow> Inl e | Inr x \<Rightarrow> f x)"

text \<open>
  The \<open>details\<close> dictionaries have string keys; a value is a string or, for the key
  \<open>custom_parameters\<close>, a dictionary of strings. Association lists keep the insertion
  order that \<open>dict.items()\<close> iterates in.
\<close>

datatype dval = Str string | Dict "(string \<times> string) list"

type_synonym details = "(string \<times> dval) list"

text \<open>
  \<open>details[key]\<close> read as a string. A missing key raises \<open>KeyError\<close>. A value of the
  other kind is reported as \<open>TypeError\<close>: Python raises at the same expression for
  \<open>html\<close>, \<open>href\<close> and \<open>youtube\<close> (a dictionary given to \<open>re\<close> or to \<open>+\<close>), and
  carries the object along until serialisation for an attribute value.
\<close>

definition get_str :: "details \<Rightarrow> string \<Rightarrow> error + string" where
  "get_str details key =
     (case map_of details key of
        None \<Rightarrow> Inl (KeyError key)
      | Some (Str s) \<Rightarrow> Inr s
      | Some (Dict _) \<Rightarrow> Inl TypeError)"

text \<open>\<open>details[key].items()\<close>: a string has no method \<open>items\<close>.\<close>

definition get_items :: "details \<Rightarrow> string \<Rightarrow> error + (string \<times> string) list" where
  "get_items details key =
     (case map_of details key of
        None \<Rightarrow> Inl (KeyError key)
      | Some (Str _) \<Rightarrow> Inl AttributeError
      | Some (Dict kvs) \<Rightarrow> Inr kvs)"

subsection \<open>String operations\<close>

definition newline :: char where
  "newline = CHR 0x0A"

definition dquote :: char where
  "dquote = CHR 0x22"

text \<open>The class \<open>\s\<close> of \<open>re\<close> on a \<open>str\<close> pattern.\<close>

definition is_space :: "char \<Rightarrow> bool" where
  "is_space c =
     (let n = (of_char c :: nat)
      in (9 \<le> n \<and> n \<le> 13) \<or> (28 \<le> n \<and> n \<le> 32) \<or> n = 133 \<or> n = 160)"

text \<open>The class \<open>\w\<close> of \<open>re\<close> on a \<open>str\<close> pattern: letters, digits, the underscore.\<close>

definition is_word :: "char \<Rightarrow> bool" where
  "is_word c =
     (let n = (of_char c :: nat)
      in (48 \<le> n \<and> n \<le> 57) \<or> (65 \<le> n \<and> n \<le> 90) \<or> n = 95 \<or> (97 \<le> n \<and> n \<le> 122)
         \<or> n = 170 \<or> n = 178 \<or> n = 179 \<or> n = 181 \<or> n = 185 \<or> n = 186
         \<or> (188 \<le> n \<and> n \<le> 190) \<or> (192 \<le> n \<and> n \<le> 214) \<or> (216 \<le> n \<and> n \<le> 246)
         \<or> 248 \<le> n)"

text \<open>\<open>sub in s\<close>.\<close>

fun py_in :: "string \<Rightarrow> string \<Rightarrow> bool" where
  "py_in sub [] = (sub = [])"
| "py_in sub (c # cs) = (prefix sub (c # cs) \<or> py_in sub cs)"

text \<open>
  \<open>s.replace(old, new)\<close>: the occurrences of \<open>old\<close> are found from the left and do not
  overlap; an empty \<open>old\<close> matches before every character and at the end.
\<close>

fun str_replace :: "string \<Rightarrow> string \<Rightarrow> string \<Rightarrow> string" where
  "str_replace [] new s = new @ concat (map (\<lambda>c. c # new) s)"
| "str_replace (x # xs) new [] = []"
| "str_replace (x # xs) new (c # cs) =
     (if prefix (x # xs) (c # cs) then new @ str_replace (x # xs) new (drop (length xs) cs)
      else c # str_replace (x # xs) new cs)"

text \<open>\<open>sep.join(parts)\<close>\<close>

fun str_join :: "string \<Rightarrow> string list \<Rightarrow> string" where
  "str_join sep [] = []"
| "str_join sep [s] = s"
| "str_join sep (s # t # ss) = s @ sep @ str_join sep (t # ss)"

text \<open>The text after a literal prefix, when the text starts with it.\<close>

definition strip_prefix :: "string \<Rightarrow> string \<Rightarrow> string option" where
  "strip_prefix p s = (if prefix p s then Some (drop (length p) s) else None)"

subsection \<open>\<open>urllib.parse.unquote\<close>\<close>

definition is_hex :: "char \<Rightarrow> bool" where
  "is_hex c =
     (let n = (of_char c :: nat)
      in (48 \<le> n \<and> n \<le> 57) \<or> (65 \<le> n \<and> n \<le> 70) \<or> (97 \<le> n \<and> n \<le> 102))"

definition hex_val :: "char \<Rightarrow> nat" where
  "hex_val c =
     (let n = (of_char c :: nat)
      in if n \<le> 57 then n - 48 else if n \<le> 70 then n - 55 else n - 87)"

text \<open>
  \<open>escape s\<close>: the byte that \<open>s\<close> starts with as \<open>%XX\<close>, two hexadecimal digits, and the
  text after the escape.
\<close>

definition escape :: "string \<Rightarrow> (nat \<times> string) option" where
  "escape s =
     (case s of
        c # h1 # h2 # rest \<Rightarrow>
          if c = CHR ''%'' \<and> is_hex h1 \<and> is_hex h2
          then Some (16 * hex_val h1 + hex_val h2, rest)
          else None
      | _ \<Rightarrow> None)"

lemma escape_shorter: "escape s = Some (b, rest) \<Longrightarrow> length rest < length s"
  by (auto simp: escape_def split: list.splits if_splits)

text \<open>
  Every escape is replaced by the byte it denotes and any other \<open>%\<close> is kept; Python
  then decodes each run of bytes as UTF-8, putting U+FFFD for a byte that is part of no
  character. A byte below 128 is the character itself. Of the longer sequences only the
  two-byte ones that start with C2 or C3 give a character of the alphabet, a code point
  from 128 to 255; they arise from two escapes in a row, the second a byte from 80 to BF.
  Any other byte from 128 on makes Python's result leave the alphabet, by U+FFFD or by a
  code point from 256 on: \<open>unquote\<close> then keeps the byte as a character, and
  \<open>unquote_exact\<close> is false. So \<open>unquote s\<close> is the result of
  \<open>urllib.parse.unquote\<close> exactly when \<open>unquote_exact s\<close> holds, which is when that
  result is a text of the alphabet.
\<close>

function unquote :: "string \<Rightarrow> string" where
  "unquote [] = []"
| "unquote (c # cs) =
     (case escape (c # cs) of
        None \<Rightarrow> c # unquote cs
      | Some (b1, rest) \<Rightarrow>
          if b1 < 128 then char_of b1 # unquote rest
          else (case escape rest of
                  None \<Rightarrow> char_of b1 # unquote rest
                | Some (b2, rest') \<Rightarrow>
                    if (b1 = 194 \<or> b1 = 195) \<and> 128 \<le> b2 \<and> b2 \<le> 191
                    then char_of ((b1 - 192) * 64 + (b2 - 128)) # unquote rest'
                    else char_of b1 # unquote rest))"
  by pat_completeness auto
termination
  by (relation "measure length") (auto dest!: escape_shorter)

function unquote_exact :: "string \<Rightarrow> bool" where
  "unquote_exact [] = True"
| "unquote_exact (c # cs) =
     (case escape (c # cs) of
        None \<Rightarrow> unquote_exact cs
      | Some (b1, rest) \<Rightarrow>
          if b1 < 128 then unquote_exact rest
          else (case escape rest of
                  None \<Rightarrow> False
                | Some (b2, rest') \<Rightarrow>
                    (b1 = 194 \<or> b1 = 195) \<and> 128 \<le> b2 \<and> b2 \<le> 191 \<and> unquote_exact rest'))"
  by pat_completeness auto
termination
  by (relation "measure length") (auto dest!: escape_shorter)

section \<open>Link classifier\<close>

text \<open>
  \<open>re.search(r"youtube.com/watch\?v=([-\w]+)", href)\<close>. The unescaped dot matches any
  character but a newline. \<open>yt_match\<close> matches the pattern at the start of a text and
  returns group 1, the longest run of hyphens and word characters; \<open>re_search_yt\<close> tries
  every start position from the left.
\<close>

definition is_idchar :: "char \<Rightarrow> bool" where
  "is_idchar c = (c = CHR ''-'' \<or> is_word c)"

definition yt_match :: "string \<Rightarrow> string option" where
  "yt_match s =
     (case strip_prefix ''youtube'' s of
        None \<Rightarrow> None
      | Some [] \<Rightarrow> None
      | Some (c # r) \<Rightarrow>
          if c = newline then None
          else (case strip_prefix ''com/watch?v='' r of
                  None \<Rightarrow> None
                | Some r' \<Rightarrow>
                    (case takeWhile is_idchar r' of [] \<Rightarrow> None | g # gs \<Rightarrow> Some (g # gs))))"

fun re_search_yt :: "string \<Rightarrow> string option" where
  "re_search_yt [] = None"
| "re_search_yt (c # cs) =
     (case yt_match (c # cs) of Some g \<Rightarrow> Some g | None \<Rightarrow> re_search_yt cs)"

text \<open>\<open>"<a href='{}'>{}</a>".format(href, text)\<close>\<close>

definition anchor :: "string \<Rightarrow> string \<Rightarrow> string" where
  "anchor href text = ''<a href='' @ [CHR 0x27] @ href @ [CHR 0x27] @ ''>'' @ text @ ''</a>''"

text \<open>
  \<open>details.get("text", "")\<close>, formatted by \<open>{}\<close>: a string is inserted as it is. The link
  text is a string; a dictionary, which Python would print, is reported as \<open>TypeError\<close>.
\<close>

definition get_text :: "details \<Rightarrow> error + string" where
  "get_text details =
     (case map_of details ''text'' of
        None \<Rightarrow> Inr []
      | Some (Str t) \<Rightarrow> Inr t
      | Some (Dict _) \<Rightarrow> Inl TypeError)"

definition process_link :: "details \<Rightarrow> error + (string \<times> details)" where
  "process_link details =
     bind (get_str details ''href'') (\<lambda>href.
       case re_search_yt href of
         Some ytid \<Rightarrow> Inr (''video'', [(''youtube'', Str ytid)])
       | None \<Rightarrow>
           bind (get_text details) (\<lambda>text.
             Inr (''html'', [(''html'', Str (anchor href text))])))"

section \<open>Static-link rewriter\<close>

text \<open>
  \<open>re.findall(r'src\s*=\s*"(.+?)"', html)\<close>. \<open>lazy_body\<close> is the part of \<open>(.+?)"\<close> after
  the first character of the group: the group ends at the first double quote, and a
  newline before it fails the match. Since neither \<open>=\<close> nor the quote is white space, the
  greedy \<open>\s*\<close> never gives a character back. \<open>src_match\<close> returns the group and the text
  after the match.
\<close>

fun lazy_body :: "string \<Rightarrow> (string \<times> string) option" where
  "lazy_body [] = None"
| "lazy_body (c # cs) =
     (if c = dquote then Some ([], cs)
      else if c = newline then None
      else map_option (\<lambda>(b, r). (c # b, r)) (lazy_body cs))"

definition src_match :: "string \<Rightarrow> (string \<times> string) option" where
  "src_match s =
     (case strip_prefix ''src'' s of
        None \<Rightarrow> None
      | Some r \<Rightarrow>
          (case dropWhile is_space r of
             [] \<Rightarrow> None
           | e # r2 \<Rightarrow>
               if e \<noteq> CHR ''='' then None
               else (case dropWhile is_space r2 of
                       q # c # r4 \<Rightarrow>
                         if q = dquote \<and> c \<noteq> newline
                         then map_option (\<lambda>(b, r). (c # b, r)) (lazy_body r4)
                         else None
                     | _ \<Rightarrow> None)))"

lemma lazy_body_shorter: "lazy_body s = Some (b, r) \<Longrightarrow> length r < length s"
  by (induction s arbitrary: b r) (auto split: if_splits)

lemma strip_prefix_length: "strip_prefix p s = Some r \<Longrightarrow> length r \<le> length s"
  by (auto simp: strip_prefix_def split: if_splits)

lemma dropWhile_Cons_length: "dropWhile P xs = y # ys \<Longrightarrow> length ys < length xs"
proof -
  assume h: "dropWhile P xs = y # ys"
  have "length (dropWhile P xs) \<le> length xs" by (rule length_dropWhile_le)
  with h show ?thesis by simp
qed

lemma src_match_shorter:
  assumes "src_match s = Some (g, rest)"
  shows "length rest < length s"
proof -
  from assms obtain r r2 c r4 b where
    r: "strip_prefix ''src'' s = Some r" and
    r2: "dropWhile is_space r = CHR ''='' # r2" and
    r4: "dropWhile is_space r2 = dquote # c # r4" and
    b: "lazy_body r4 = Some (b, rest)"
    by (auto simp: src_match_def split: option.splits list.splits if_splits)
  from b have "length rest < length r4" by (rule lazy_body_shorter)
  moreover from r4 have "length (c # r4) < length r2" by (rule dropWhile_Cons_length)
  moreover from r2 have "length r2 < length r" by (rule dropWhile_Cons_length)
  moreover from r have "length r \<le> length s" by (rule strip_prefix_length)
  ultimately show ?thesis by simp
qed

function findall_src :: "string \<Rightarrow> string list" where
  "findall_src [] = []"
| "findall_src (c # cs) =
     (case src_match (c # cs) of
        Some (g, rest) \<Rightarrow> g # findall_src rest
      | None \<Rightarrow> findall_src cs)"
  by pat_completeness auto
termination
  by (relation "measure length") (auto dest: src_match_shorter)

text \<open>
  \<open>_process_static_links\<close>: the values are collected once, from the text as given; each
  value that contains \<open>IMS-CC-FILEBASE\<close> is then replaced, wherever it occurs in the
  current text, by its decoded form with \<open>$IMS-CC-FILEBASE$\<close> turned into \<open>/static\<close>.
\<close>

definition new_src :: "string \<Rightarrow> string" where
  "new_src src = str_replace ''$IMS-CC-FILEBASE$'' ''/static'' (unquote src)"

definition rewrite_src :: "string \<Rightarrow> string \<Rightarrow> string" where
  "rewrite_src html src =
     (if py_in ''IMS-CC-FILEBASE'' src then str_replace src (new_src src) html else html)"

definition process_static_links :: "string \<Rightarrow> string" where
  "process_static_links html = foldl rewrite_src html (findall_src html)"

text \<open>
  For the statement of what the rewriter changes. \<open>cut_at v s gaps\<close>: the text \<open>s\<close> is
  the pieces \<open>gaps\<close> with \<open>v\<close> between them, each \<open>v\<close> being the leftmost occurrence in
  what is left of the text after the one before: \<open>v\<close> starts nowhere within a piece that
  another follows, and does not occur in the last piece. \<open>rewrite_steps vs s t\<close>: the text
  \<open>t\<close> arises from \<open>s\<close> in one step for each value of \<open>vs\<close>, in order, a step cutting the
  current text at the value \<open>v\<close> and joining the same pieces with \<open>new_src v\<close>.
\<close>

definition cut_at :: "string \<Rightarrow> string \<Rightarrow> string list \<Rightarrow> bool" where
  "cut_at v s gaps =
     (gaps \<noteq> [] \<and> s = str_join v gaps \<and>
      (\<forall>g\<in>set (butlast gaps). \<not> py_in v (g @ butlast v)) \<and>
      \<not> py_in v (last gaps))"

inductive rewrite_steps :: "string list \<Rightarrow> string \<Rightarrow> string \<Rightarrow> bool" where
  no_step: "rewrite_steps [] s s"
| step: "cut_at v s gaps \<Longrightarrow> rewrite_steps vs (str_join (new_src v) gaps) t \<Longrightarrow>
         rewrite_steps (v # vs) s t"

section \<open>OLX nodes\<close>

text \<open>
  The nodes of \<open>xml.dom.minidom\<close> that the exporter builds: elements, with their attributes
  in insertion order and their child nodes, and CDATA sections.
\<close>

datatype olx =
    Element (tagName: string) (attributes: "(string \<times> string) list") (childNodes: "olx list")
  | CDATASection (data: string)

definition createElement :: "string \<Rightarrow> olx" where
  "createElement tag = Element tag [] []"

text \<open>Assignment to a dictionary key: an existing key keeps its position.\<close>

fun dict_set :: "string \<Rightarrow> string \<Rightarrow> (string \<times> string) list \<Rightarrow> (string \<times> string) list" where
  "dict_set k v [] = [(k, v)]"
| "dict_set k v ((k', v') # kvs) = (if k' = k then (k, v) # kvs else (k', v') # dict_set k v kvs)"

text \<open>\<open>node.setAttribute(name, value)\<close>; a CDATA section has no such method.\<close>

fun setAttribute :: "string \<Rightarrow> string \<Rightarrow> olx \<Rightarrow> error + olx" where
  "setAttribute name v (Element tag attrs kids) = Inr (Element tag (dict_set name v attrs) kids)"
| "setAttribute name v (CDATASection d) = Inl AttributeError"

text \<open>\<open>node.appendChild(child)\<close>; a CDATA section cannot have children.\<close>

fun appendChild :: "olx \<Rightarrow> olx \<Rightarrow> error + olx" where
  "appendChild (Element tag attrs kids) child = Inr (Element tag attrs (kids @ [child]))"
| "appendChild (CDATASection d) child = Inl HierarchyRequestErr"

text \<open>
  The child appended last is the object that the exporter goes on to fill: the parent
  sees the node as that call leaves it.
\<close>

fun set_last_child :: "olx \<Rightarrow> olx \<Rightarrow> olx" where
  "set_last_child (Element tag attrs kids) child = Element tag attrs (butlast kids @ [child])"
| "set_last_child (CDATASection d) child = CDATASection d"

section \<open>The course outline and its collaborators\<close>

text \<open>
  An outline node is a dictionary read at three keys, each of which may be absent:
  \<open>title\<close>, \<open>identifierref\<close> and \<open>children\<close>.
\<close>

datatype outline =
  Outline (title: "string option") (identifierref: "string option")
          (children: "outline list option")

text \<open>
  The cartridge object. \<open>get_resource_content\<close> returns a content type, or \<open>None\<close>, and
  the details; like any collaborator it may raise.
\<close>

record cartridge =
  get_course_org :: string
  get_title :: string
  normalized_children :: "outline list"
  get_resource_content :: "string \<Rightarrow> error + (string option \<times> details)"

text \<open>
  \<open>QtiExport(doc).create_qti_node(details)\<close> lives in \<open>cc2olx/qti.py\<close>; the exporter
  only passes its nodes on, so it is a parameter of the model. Its nodes are new ones.
\<close>

type_synonym qti_export = "details \<Rightarrow> error + olx list"

section \<open>Content resolution and node building\<close>

definition HTML :: string where "HTML = ''html''"
definition LINK :: string where "LINK = ''link''"
definition VIDEO :: string where "VIDEO = ''video''"
definition LTI :: string where "LTI = ''lti''"
definition QTI :: string where "QTI = ''qti''"

definition missing_content :: details where
  "missing_content = [(''html'', Str ''<p>MISSING CONTENT</p>'')]"

definition get_content :: "cartridge \<Rightarrow> outline \<Rightarrow> error + (string \<times> details)" where
  "get_content cart element_data =
     bind (case identifierref element_data of
             None \<Rightarrow> Inr (None, [])
           | Some idref \<Rightarrow> get_resource_content cart idref)
       (\<lambda>(content_type, details).
          let (content_type, details) =
                (case content_type of
                   None \<Rightarrow> (HTML, missing_content)
                 | Some ct \<Rightarrow> (ct, details))
          in if content_type = LINK then process_link details
             else Inr (content_type, details))"

definition format_param :: "string \<times> string \<Rightarrow> string" where
  "format_param kv = [dquote] @ fst kv @ ''='' @ snd kv @ [dquote]"

definition create_lti_node :: "details \<Rightarrow> error + olx" where
  "create_lti_node details =
     bind (get_items details ''custom_parameters'') (\<lambda>items.
     let custom_parameters = ''['' @ str_join '', '' (map format_param items) @ '']'' in
     bind (setAttribute ''custom_parameters'' custom_parameters (createElement ''lti_consumer'')) (\<lambda>node.
     bind (get_str details ''description'') (\<lambda>v.
     bind (setAttribute ''description'' v node) (\<lambda>node.
     bind (get_str details ''title'') (\<lambda>v.
     bind (setAttribute ''display_name'' v node) (\<lambda>node.
     bind (get_str details ''height'') (\<lambda>v.
     bind (setAttribute ''inline_height'' v node) (\<lambda>node.
     bind (get_str details ''width'') (\<lambda>v.
     bind (setAttribute ''inline_width'' v node) (\<lambda>node.
     bind (get_str details ''launch_url'') (\<lambda>v.
     bind (setAttribute ''launch_url'' v node) (\<lambda>node.
     bind (get_str details ''height'') (\<lambda>v.
     bind (setAttribute ''modal_height'' v node) (\<lambda>node.
     bind (get_str details ''width'') (\<lambda>v.
     bind (setAttribute ''modal_width'' v node) (\<lambda>node.
     setAttribute ''xblock-family'' ''xblock.v1'' node))))))))))))))))"

definition unsupported :: "string \<Rightarrow> error" where
  "unsupported content_type =
     OlxExportException (''Content type '' @ [dquote] @ content_type @ [dquote] @ '' is not supported.'')"

definition create_olx_nodes :: "qti_export \<Rightarrow> string \<Rightarrow> details \<Rightarrow> error + olx list" where
  "create_olx_nodes qti content_type details =
     (if content_type = HTML then
        bind (get_str details ''html'') (\<lambda>html.
        bind (appendChild (createElement ''html'') (CDATASection (process_static_links html))) (\<lambda>child.
        Inr [child]))
      else if content_type = VIDEO then
        bind (get_str details ''youtube'') (\<lambda>y.
        bind (setAttribute ''youtube'' (''1.00:'' @ y) (createElement ''video'')) (\<lambda>child.
        bind (get_str details ''youtube'') (\<lambda>y.
        bind (setAttribute ''youtube_id_1_0'' y child) (\<lambda>child.
        Inr [child]))))
      else if content_type = LTI then
        bind (create_lti_node details) (\<lambda>node. Inr [node])
      else if content_type = QTI then
        bind (qti details) (\<lambda>nodes. Inr ([] @ nodes))
      else Inl (unsupported content_type))"

section \<open>Tree mapper\<close>

text \<open>
  The nodes that \<open>_add_olx_nodes\<close> makes for one outline node before it decorates them:
  the content nodes at leaf depth (no tag left), one container otherwise.
\<close>

definition new_children :: "qti_export \<Rightarrow> cartridge \<Rightarrow> outline \<Rightarrow> string list \<Rightarrow> error + olx list" where
  "new_children qti cart element_data tags =
     (if tags = [] then
        bind (get_content cart element_data) (\<lambda>(content_type, details).
          create_olx_nodes qti content_type details)
      else Inr [createElement (hd tags)])"

text \<open>
  \<open>_add_olx_nodes\<close> mutates \<open>element\<close> and may stop at an exception: it is modelled as a
  function from the element to the element as the call leaves it, with the exception
  raised, if any. \<open>add_children\<close> is the inner loop over the nodes of one outline node.
\<close>

fun add_olx_nodes ::
      "qti_export \<Rightarrow> cartridge \<Rightarrow> olx \<Rightarrow> outline list \<Rightarrow> string list \<Rightarrow> olx \<times> error option"
  and add_children ::
      "qti_export \<Rightarrow> cartridge \<Rightarrow> olx \<Rightarrow> outline \<Rightarrow> olx list \<Rightarrow> string list \<Rightarrow> olx \<times> error option"
where
  "add_olx_nodes qti cart element [] tags = (element, None)"
| "add_olx_nodes qti cart element (element_data # course_data) tags =
     (case new_children qti cart element_data tags of
        Inl e \<Rightarrow> (element, Some e)
      | Inr nodes \<Rightarrow>
          (case add_children qti cart element element_data nodes tags of
             (element', Some e) \<Rightarrow> (element', Some e)
           | (element', None) \<Rightarrow> add_olx_nodes qti cart element' course_data tags))"
| "add_children qti cart element element_data [] tags = (element, None)"
| "add_children qti cart element (Outline ttl idref kids) (child # nodes) tags =
     (case (case ttl of None \<Rightarrow> Inr child | Some t \<Rightarrow> setAttribute ''display_name'' t child) of
        Inl e \<Rightarrow> (element, Some e)
      | Inr child \<Rightarrow>
          (case appendChild element child of
             Inl e \<Rightarrow> (element, Some e)
           | Inr element' \<Rightarrow>
               (case kids of
                  None \<Rightarrow> add_children qti cart element' (Outline ttl idref kids) nodes tags
                | Some course_data \<Rightarrow>
                    (case add_olx_nodes qti cart child course_data (tl tags) of
                       (child', Some e) \<Rightarrow> (set_last_child element' child', Some e)
                     | (child', None) \<Rightarrow>
                         add_children qti cart (set_last_child element' child')
                           (Outline ttl idref kids) nodes tags))))"


section \<open>Statements about the tree\<close>


text \<open>
  \<open>decorated qti cart element_data tags child node\<close>: \<open>node\<close> is what the mapper makes of
  \<open>child\<close>, one of the nodes built for \<open>element_data\<close>: the display name set when there
  is a title, and the nodes of the outline node's children added below.
\<close>

definition decorated :: "qti_export \<Rightarrow> cartridge \<Rightarrow> outline \<Rightarrow> string list \<Rightarrow> olx \<Rightarrow> olx \<Rightarrow> bool" where
  "decorated qti cart element_data tags child node =
     (case (case title element_data of
              None \<Rightarrow> Inr child
            | Some t \<Rightarrow> setAttribute ''display_name'' t child) of
        Inl e \<Rightarrow> False
      | Inr child' \<Rightarrow>
          (case children element_data of
             None \<Rightarrow> node = child'
           | Some course_data \<Rightarrow>
               add_olx_nodes qti cart child' course_data (tl tags) = (node, None)))"

text \<open>A small course and a QTI collaborator that returns two nodes, for examples.\<close>

definition example_qti :: qti_export where
  "example_qti = (\<lambda>details. Inr [Element ''problem'' [] [], Element ''problem'' [(''n'', ''2'')] []])"

definition example_cartridge :: cartridge where
  "example_cartridge =
     \<lparr>get_course_org = ''org'', get_title = ''Course'',
      normalized_children =
        [Outline (Some ''Ch'') None (Some
           [Outline (Some ''Seq'') None (Some
              [Outline (Some ''Vert'') None (Some
                 [Outline (Some ''Leaf'') (Some ''r1'') None,
                  Outline None None None])]),
            Outline None None None])],
      get_resource_content =
        (\<lambda>idref. if idref = ''q1'' then Inr (Some ''qti'', [])
                 else Inr (Some ''html'', [(''html'', Str ''<p>a</p>'')]))\<rparr>"

section \<open>Properties\<close>

subsection \<open>Auxiliary facts\<close>

lemma static_links_placeholder:
  "process_static_links ''<p>MISSING CONTENT</p>'' = ''<p>MISSING CONTENT</p>''"
  by code_simp

subsection \<open>Node builders\<close>

text \<open>
  C7: for the LTI details with height 400, width 600, title T, description D, launch URL
  U and custom parameters a=1, b=2, the node builder produces a single \<open>lti_consumer\<close>
  element whose attributes are \<open>custom_parameters\<close> (the bracketed list of the quoted
  pairs, in insertion order), \<open>description\<close>, \<open>display_name\<close>, \<open>inline_height\<close>,
  \<open>inline_width\<close>, \<open>launch_url\<close>, \<open>modal_height\<close>, \<open>modal_width\<close> and
  \<open>xblock-family\<close>, with the values given.
\<close>

theorem create_lti_node_example:
  \<open>create_olx_nodes qti ''lti''
     [(''height'', Str ''400''), (''width'', Str ''600''), (''title'', Str ''T''),
      (''description'', Str ''D''), (''launch_url'', Str ''U''),
      (''custom_parameters'', Dict [(''a'', ''1''), (''b'', ''2'')])] =
   Inr [Element ''lti_consumer''
          [(''custom_parameters'', ''["a=1", "b=2"]''),
           (''description'', ''D''),
           (''display_name'', ''T''),
           (''inline_height'', ''400''),
           (''inline_width'', ''600''),
           (''launch_url'', ''U''),
           (''modal_height'', ''400''),
           (''modal_width'', ''600''),
           (''xblock-family'', ''xblock.v1'')] []]\<close>
  by (simp add: create_olx_nodes_def create_lti_node_def get_items_def get_str_def bind_def
      createElement_def format_param_def dquote_def HTML_def VIDEO_def LTI_def)

text \<open>
  C2: a leaf outline node without \<open>identifierref\<close>, or one whose reference the resolver
  answers with no content type, resolves to content type \<open>html\<close> with the placeholder
  details, and node building returns exactly one \<open>html\<close> element whose only child is the
  CDATA section \<open><p>MISSING CONTENT</p>\<close>. Both steps return; neither raises.
\<close>

theorem missing_content_placeholder:
  assumes "identifierref element_data = None \<or>
           (\<exists>idref details. identifierref element_data = Some idref \<and>
              get_resource_content cart idref = Inr (None, details))"
  shows "get_content cart element_data = Inr (''html'', [(''html'', Str ''<p>MISSING CONTENT</p>'')]) \<and>
         new_children qti cart element_data [] =
           Inr [Element ''html'' [] [CDATASection ''<p>MISSING CONTENT</p>'']]"
proof -
  have gc: "get_content cart element_data = Inr (''html'', [(''html'', Str ''<p>MISSING CONTENT</p>'')])"
    using assms
    by (auto simp: get_content_def bind_def HTML_def LINK_def missing_content_def)
  have "create_olx_nodes qti ''html'' [(''html'', Str ''<p>MISSING CONTENT</p>'')] =
          Inr [Element ''html'' [] [CDATASection ''<p>MISSING CONTENT</p>'']]"
    by (simp add: create_olx_nodes_def HTML_def get_str_def bind_def createElement_def
        static_links_placeholder)
  with gc show ?thesis
    by (simp add: new_children_def bind_def)
qed

theorem missing_content_placeholder_witness:
  "new_children (\<lambda>d. Inr [])
     \<lparr>get_course_org = ''org'', get_title = ''T'', normalized_children = [],
      get_resource_content = (\<lambda>r. Inr (None, []))\<rparr>
     (Outline (Some ''t'') (Some ''res1'') None) [] =
   Inr [Element ''html'' [] [CDATASection ''<p>MISSING CONTENT</p>'']]"
  using missing_content_placeholder [of "Outline (Some ''t'') (Some ''res1'') None"
      "\<lparr>get_course_org = ''org'', get_title = ''T'', normalized_children = [],
      get_resource_content = (\<lambda>r. Inr (None, []))\<rparr>" "\<lambda>d. Inr []"]
  by simp

subsection \<open>Link classifier\<close>

text \<open>
  C6: when the YouTube pattern matches nowhere in \<open>href\<close>, the link classifier returns
  content type \<open>html\<close> whose body is the anchor \<open><a href='HREF'>TEXT</a>\<close>, where TEXT is
  the \<open>text\<close> entry of the details and the empty string when there is none.
\<close>

theorem process_link_anchor:
  assumes "map_of details ''href'' = Some (Str href)"
    and "re_search_yt href = None"
    and "(map_of details ''text'' = None \<and> text = []) \<or> map_of details ''text'' = Some (Str text)"
  shows "process_link details =
           Inr (''html'', [(''html'', Str (''<a href='' @ [CHR 0x27] @ href @ [CHR 0x27] @ ''>'' @ text @ ''</a>''))])"
  using assms
  by (auto simp: process_link_def get_str_def get_text_def bind_def anchor_def)

theorem process_link_anchor_witness:
  "process_link [(''href'', Str ''http://example.com/a'')] =
     Inr (''html'', [(''html'', Str (''<a href='' @ [CHR 0x27] @ ''http://example.com/a'' @ [CHR 0x27] @ ''></a>''))])"
proof -
  have "re_search_yt ''http://example.com/a'' = None" by code_simp
  then show ?thesis
    using process_link_anchor [of "[(''href'', Str ''http://example.com/a'')]" "''http://example.com/a''" "[]"]
    by simp
qed

lemma takeWhile_run:
  assumes "\<forall>x\<in>set g. P x" and "rest = [] \<or> \<not> P (hd rest)"
  shows "takeWhile P (g @ rest) = g"
proof (cases rest)
  case Nil
  with assms(1) show ?thesis by simp
next
  case (Cons r rs)
  with assms show ?thesis by (simp add: takeWhile_tail)
qed

lemma yt_match_Nil: "yt_match [] = None"
  by (simp add: yt_match_def strip_prefix_def)

lemma re_search_yt_here: "yt_match s = Some g \<Longrightarrow> re_search_yt s = Some g"
  by (cases s) (simp_all add: yt_match_Nil)

lemma re_search_yt_found: "yt_match s = Some g \<Longrightarrow> \<exists>g'. re_search_yt (pre @ s) = Some g'"
  by (induction pre) (auto simp: re_search_yt_here split: option.split)

lemma strip_prefix_append: "strip_prefix p (p @ s) = Some s"
  by (simp add: strip_prefix_def)

lemma yt_match_here:
  assumes "c \<noteq> newline" and "g \<noteq> []" and "\<forall>x\<in>set g. is_idchar x"
    and "rest = [] \<or> \<not> is_idchar (hd rest)"
  shows "yt_match (''youtube'' @ [c] @ ''com/watch?v='' @ g @ rest) = Some g"
proof -
  have t: "takeWhile is_idchar (g @ rest) = g"
    using assms(3,4) by (rule takeWhile_run)
  have 1: "strip_prefix ''youtube'' (''youtube'' @ [c] @ ''com/watch?v='' @ g @ rest)
             = Some (c # ''com/watch?v='' @ g @ rest)"
    using strip_prefix_append [of "''youtube''" "c # ''com/watch?v='' @ g @ rest"] by simp
  have 2: "strip_prefix ''com/watch?v='' (''com/watch?v='' @ g @ rest) = Some (g @ rest)"
    by (rule strip_prefix_append)
  from assms(2) obtain x xs where g: "g = x # xs" by (cases g) auto
  show ?thesis
    unfolding yt_match_def 1 using assms(1) 2 t g by simp
qed

lemma re_search_yt_leftmost:
  assumes "yt_match s = Some g" and "\<forall>i<length pre. yt_match (drop i (pre @ s)) = None"
  shows "re_search_yt (pre @ s) = Some g"
  using assms
proof (induction pre)
  case Nil
  then show ?case by (simp add: re_search_yt_here)
next
  case (Cons p pre)
  from Cons.prems(2) have "yt_match (drop 0 ((p # pre) @ s)) = None" by blast
  then have h: "yt_match (p # pre @ s) = None" by simp
  have "\<forall>i<length pre. yt_match (drop i (pre @ s)) = None"
  proof (intro allI impI)
    fix i assume "i < length pre"
    then have "Suc i < length (p # pre)" by simp
    with Cons.prems(2) have "yt_match (drop (Suc i) ((p # pre) @ s)) = None" by blast
    then show "yt_match (drop i (pre @ s)) = None" by simp
  qed
  with Cons.IH Cons.prems(1) have "re_search_yt (pre @ s) = Some g" by blast
  with h show ?case by simp
qed

lemma process_link_video:
  assumes "map_of details ''href'' = Some (Str href)" and "re_search_yt href = Some g"
  shows "process_link details = Inr (''video'', [(''youtube'', Str g)])"
  using assms by (simp add: process_link_def get_str_def bind_def)

text \<open>
  C5, as the code has it: when \<open>href\<close> contains \<open>youtube.com/watch?v=\<close> followed by a
  non-empty run of word characters and hyphens that ends at the end of the text or at a
  character of another kind (a trailing \<open>&\<close>, say), the link classifier returns content
  type \<open>video\<close>; the YouTube id is that run whenever the pattern matches at no earlier
  position of \<open>href\<close>, whatever follows the run.
\<close>

theorem process_link_youtube:
  assumes "map_of details ''href'' = Some (Str href)"
    and "href = pre @ ''youtube.com/watch?v='' @ ident @ rest"
    and "ident \<noteq> []" and "\<forall>c\<in>set ident. is_idchar c"
    and "rest = [] \<or> \<not> is_idchar (hd rest)"
  shows "(\<exists>ytid. process_link details = Inr (''video'', [(''youtube'', Str ytid)])) \<and>
         ((\<forall>i<length pre. yt_match (drop i href) = None) \<longrightarrow>
            process_link details = Inr (''video'', [(''youtube'', Str ident)]))"
proof -
  let ?s = "''youtube'' @ [CHR ''.''] @ ''com/watch?v='' @ ident @ rest"
  have s: "href = pre @ ?s" using assms(2) by simp
  have nl: "CHR ''.'' \<noteq> newline" by (simp add: newline_def)
  have m: "yt_match ?s = Some ident"
    using nl assms(3,4,5) by (rule yt_match_here)
  from re_search_yt_found [OF m, of pre] obtain g' where "re_search_yt href = Some g'"
    unfolding s by blast
  with assms(1) have "process_link details = Inr (''video'', [(''youtube'', Str g')])"
    by (rule process_link_video)
  then have first: "\<exists>ytid. process_link details = Inr (''video'', [(''youtube'', Str ytid)])"
    by blast
  have second: "process_link details = Inr (''video'', [(''youtube'', Str ident)])"
    if "\<forall>i<length pre. yt_match (drop i href) = None"
  proof -
    from that have "re_search_yt href = Some ident"
      unfolding s by (rule re_search_yt_leftmost [OF m])
    with assms(1) show ?thesis by (rule process_link_video)
  qed
  from first second show ?thesis by blast
qed

theorem process_link_youtube_witness:
  "process_link [(''href'', Str ''//youtube.com/watch?v=ABC123&list=PL5B'')] =
     Inr (''video'', [(''youtube'', Str ''ABC123'')])"
proof -
  have a: "\<forall>c\<in>set ''ABC123''. is_idchar c"
    by code_simp
  have b: "''&list=PL5B'' = [] \<or> \<not> is_idchar (hd ''&list=PL5B'')"
    by code_simp
  have c0: "yt_match ''//youtube.com/watch?v=ABC123&list=PL5B'' = None" by code_simp
  have c1: "yt_match ''/youtube.com/watch?v=ABC123&list=PL5B'' = None" by code_simp
  have c: "\<forall>i<length ''//''. yt_match (drop i ''//youtube.com/watch?v=ABC123&list=PL5B'') = None"
  proof (intro allI impI)
    fix i :: nat
    assume "i < length ''//''"
    then have "i = 0 \<or> i = Suc 0" by auto
    then show "yt_match (drop i ''//youtube.com/watch?v=ABC123&list=PL5B'') = None"
      using c0 c1 by auto
  qed
  have d: "''//youtube.com/watch?v=ABC123&list=PL5B'' = ''//'' @ ''youtube.com/watch?v='' @ ''ABC123'' @ ''&list=PL5B''"
    by simp
  have e: "map_of [(''href'', Str ''//youtube.com/watch?v=ABC123&list=PL5B'')] ''href'' =
             Some (Str ''//youtube.com/watch?v=ABC123&list=PL5B'')"
    by simp
  have f: "''ABC123'' \<noteq> []" by simp
  from process_link_youtube [OF e d f a b] c show ?thesis by blast
qed

text \<open>
  C5, as stated, fails for an occurrence that is not the leftmost one: the text below
  contains \<open>youtube.com/watch?v=\<close> followed by the identifier \<open>B\<close>, and the id returned
  is \<open>A\<close>, the one of the first match.
\<close>

theorem process_link_second_occurrence:
  "process_link [(''href'', Str ''http://youtube.com/watch?v=A&u=youtube.com/watch?v=B'')] =
     Inr (''video'', [(''youtube'', Str ''A'')]) \<and>
   process_link [(''href'', Str ''http://youtube.com/watch?v=A&u=youtube.com/watch?v=B'')] \<noteq>
     Inr (''video'', [(''youtube'', Str ''B'')])"
  by code_simp

text \<open>
  C10, as the code has it: the search is unanchored, and the one unescaped dot of the
  pattern, between \<open>youtube\<close> and \<open>com\<close>, stands for any character but a newline. So a
  text with \<open>youtube\<close>, any such character, \<open>com/watch?v=\<close> and an identifier, anywhere
  in \<open>href\<close>, is classified as \<open>video\<close>; the id is that identifier when the pattern
  matches at no earlier position.
\<close>

theorem process_link_dot_any_char:
  assumes "map_of details ''href'' = Some (Str href)"
    and "href = pre @ ''youtube'' @ [c] @ ''com/watch?v='' @ ident @ rest"
    and "c \<noteq> CHR 0x0A"
    and "ident \<noteq> []" and "\<forall>x\<in>set ident. is_idchar x"
    and "rest = [] \<or> \<not> is_idchar (hd rest)"
  shows "(\<exists>ytid. process_link details = Inr (''video'', [(''youtube'', Str ytid)])) \<and>
         ((\<forall>i<length pre. yt_match (drop i href) = None) \<longrightarrow>
            process_link details = Inr (''video'', [(''youtube'', Str ident)]))"
proof -
  let ?s = "''youtube'' @ [c] @ ''com/watch?v='' @ ident @ rest"
  have nl: "c \<noteq> newline" using assms(3) by (simp add: newline_def)
  have m: "yt_match ?s = Some ident"
    using nl assms(4,5,6) by (rule yt_match_here)
  from re_search_yt_found [OF m, of pre] obtain g' where "re_search_yt href = Some g'"
    unfolding assms(2) by blast
  with assms(1) have "process_link details = Inr (''video'', [(''youtube'', Str g')])"
    by (rule process_link_video)
  then have first: "\<exists>ytid. process_link details = Inr (''video'', [(''youtube'', Str ytid)])"
    by blast
  have second: "process_link details = Inr (''video'', [(''youtube'', Str ident)])"
    if "\<forall>i<length pre. yt_match (drop i href) = None"
  proof -
    from that have "re_search_yt href = Some ident"
      unfolding assms(2) by (rule re_search_yt_leftmost [OF m])
    with assms(1) show ?thesis by (rule process_link_video)
  qed
  from first second show ?thesis by blast
qed

theorem process_link_dot_any_char_witness:
  "process_link [(''href'', Str ''http://youtubeXcom/watch?v=abc'')] =
     Inr (''video'', [(''youtube'', Str ''abc'')])"
proof -
  have a: "\<forall>x\<in>set ''abc''. is_idchar x"
    by code_simp
  have "list_all (\<lambda>i. yt_match (drop i ''http://youtubeXcom/watch?v=abc'') = None) [0..<7]"
    by code_simp
  then have c: "\<forall>i<length ''http://''. yt_match (drop i ''http://youtubeXcom/watch?v=abc'') = None"
    by (simp add: list_all_iff)
  have d: "''http://youtubeXcom/watch?v=abc'' = ''http://'' @ ''youtube'' @ [CHR ''X''] @ ''com/watch?v='' @ ''abc'' @ []"
    by simp
  have e: "map_of [(''href'', Str ''http://youtubeXcom/watch?v=abc'')] ''href'' =
             Some (Str ''http://youtubeXcom/watch?v=abc'')"
    by simp
  have f: "''abc'' \<noteq> []" by simp
  have g: "CHR ''X'' \<noteq> CHR 0x0A" by simp
  have h: "([]::string) = [] \<or> \<not> is_idchar (hd [])" by simp
  from process_link_dot_any_char [OF e d g f a h] c show ?thesis by blast
qed

text \<open>
  C10, as stated, fails at its second example: in
  \<open>evil-youtube.com.attacker.example/watch?v=abc\<close> the text \<open>youtube.com\<close> is followed
  by \<open>.attacker\<close>, not by \<open>/watch?v=\<close>, so the pattern matches nowhere and the classifier
  returns the anchor.
\<close>

theorem process_link_evil_host:
  "process_link [(''href'', Str ''evil-youtube.com.attacker.example/watch?v=abc'')] =
     Inr (''html'', [(''html'', Str (''<a href='' @ [CHR 0x27] @
        ''evil-youtube.com.attacker.example/watch?v=abc'' @ [CHR 0x27] @ ''></a>''))])"
  by code_simp

subsection \<open>Unsupported content types\<close>

lemma add_olx_nodes_append:
  "add_olx_nodes qti cart element (xs @ ys) tags =
     (case add_olx_nodes qti cart element xs tags of
        (element', Some e) \<Rightarrow> (element', Some e)
      | (element', None) \<Rightarrow> add_olx_nodes qti cart element' ys tags)"
proof (induction xs arbitrary: element)
  case Nil
  show ?case by simp
next
  case (Cons x xs)
  show ?case
    by (simp add: Cons.IH split: sum.split prod.split option.split)
qed

lemma create_olx_nodes_unsupported:
  assumes "content_type \<notin> {''html'', ''video'', ''lti'', ''qti''}"
  shows "create_olx_nodes qti content_type details = Inl (unsupported content_type)"
  using assms by (simp add: create_olx_nodes_def HTML_def VIDEO_def LTI_def QTI_def)

text \<open>
  C8: when the content resolved for a leaf outline node has a type other than \<open>html\<close>,
  \<open>video\<close>, \<open>lti\<close> and \<open>qti\<close>, node building raises \<open>OlxExportException\<close> with the
  message \<open>Content type "TYPE" is not supported.\<close>, and the traversal stops with that
  exception, leaving the element as the outline nodes before this one left it: the node
  adds nothing to the tree.
\<close>

theorem unsupported_content_type:
  assumes "get_content cart element_data = Inr (content_type, details)"
    and "content_type \<notin> {''html'', ''video'', ''lti'', ''qti''}"
    and "add_olx_nodes qti cart element before [] = (element', None)"
  shows \<open>create_olx_nodes qti content_type details =
           Inl (OlxExportException (''Content type "'' @ content_type @ ''" is not supported.'')) \<and>
         add_olx_nodes qti cart element (before @ element_data # after) [] =
           (element', Some (OlxExportException (''Content type "'' @ content_type @ ''" is not supported.'')))\<close>
proof -
  have c: "create_olx_nodes qti content_type details = Inl (unsupported content_type)"
    using assms(2) by (rule create_olx_nodes_unsupported)
  with assms(1) have "new_children qti cart element_data [] = Inl (unsupported content_type)"
    by (simp add: new_children_def bind_def)
  then have "add_olx_nodes qti cart element' (element_data # after) [] =
               (element', Some (unsupported content_type))"
    by simp
  with assms(3) have "add_olx_nodes qti cart element (before @ element_data # after) [] =
               (element', Some (unsupported content_type))"
    by (simp add: add_olx_nodes_append)
  with c show ?thesis
    by (simp add: unsupported_def dquote_def)
qed

theorem unsupported_content_type_witness:
  \<open>add_olx_nodes (\<lambda>d. Inr [])
      \<lparr>get_course_org = ''org'', get_title = ''Course'', normalized_children = [],
       get_resource_content = (\<lambda>r. if r = ''r1'' then Inr (Some ''html'', [(''html'', Str ''<p>a</p>'')])
                               else Inr (Some ''pdf'', []))\<rparr>
      (Element ''vertical'' [] [])
      [Outline (Some ''A'') (Some ''r1'') None, Outline None (Some ''r2'') None, Outline None None None] [] =
   (Element ''vertical'' [] [Element ''html'' [(''display_name'', ''A'')] [CDATASection ''<p>a</p>'']],
    Some (OlxExportException ''Content type "pdf" is not supported.''))\<close>
proof -
  let ?cart = "\<lparr>get_course_org = ''org'', get_title = ''Course'', normalized_children = [],
       get_resource_content = (\<lambda>r. if r = ''r1'' then Inr (Some ''html'', [(''html'', Str ''<p>a</p>'')])
                               else Inr (Some ''pdf'', []))\<rparr>"
  have sl: "process_static_links ''<p>a</p>'' = ''<p>a</p>''" by code_simp
  have a: "get_content ?cart (Outline None (Some ''r2'') None) = Inr (''pdf'', [])"
    by (simp add: get_content_def bind_def LINK_def)
  have b: "''pdf'' \<notin> {''html'', ''video'', ''lti'', ''qti''}" by simp
  have c: "add_olx_nodes (\<lambda>d. Inr []) ?cart (Element ''vertical'' [] []) [Outline (Some ''A'') (Some ''r1'') None] [] =
      (Element ''vertical'' [] [Element ''html'' [(''display_name'', ''A'')] [CDATASection ''<p>a</p>'']], None)"
    by (simp add: new_children_def get_content_def bind_def LINK_def HTML_def create_olx_nodes_def
        get_str_def createElement_def sl)
  show ?thesis
    using unsupported_content_type [OF a b c, of "[Outline None None None]"] by simp
qed

subsection \<open>Static-link rewriter\<close>

lemma py_in_sublist: "py_in v s = sublist v s"
  by (induction s) (simp_all add: sublist_Cons_right)

lemma py_in_length: "py_in v s \<Longrightarrow> length v \<le> length s"
  by (simp add: py_in_sublist sublist_length_le)

lemma py_in_Cons: "py_in v (c # s) = (prefix v (c # s) \<or> py_in v s)"
  by simp

lemma str_replace_absent:
  "\<not> py_in (x # xs) s \<Longrightarrow> str_replace (x # xs) new s = s"
proof (induction s)
  case Nil
  show ?case by simp
next
  case (Cons c s)
  from Cons.prems have np: "\<not> prefix (x # xs) (c # s)" and ns: "\<not> py_in (x # xs) s"
    unfolding py_in_Cons by blast+
  from np have "str_replace (x # xs) new (c # s) = c # str_replace (x # xs) new s"
    unfolding str_replace.simps(3) by (rule if_not_P)
  with Cons.IH [OF ns] show ?case by simp
qed

lemma str_replace_prefix:
  "str_replace (x # xs) new ((x # xs) @ r) = new @ str_replace (x # xs) new r"
proof -
  have p: "prefix (x # xs) (x # xs @ r)" by simp
  have "str_replace (x # xs) new (x # xs @ r) = new @ str_replace (x # xs) new (drop (length xs) (xs @ r))"
    unfolding str_replace.simps(3) using p by (rule if_P)
  then show ?thesis by simp
qed

lemma prefix_shorter_text:
  assumes "prefix v (g @ v @ r)" and "v \<noteq> []"
  shows "prefix v (g @ butlast v) \<or> g = []"
proof (cases g)
  case Nil
  then show ?thesis by simp
next
  case (Cons c g')
  have len: "length v \<le> length (g @ butlast v)"
    using Cons by simp
  from assms(1) have "v = take (length v) (g @ v @ r)"
    by (metis append_eq_conv_conj prefix_def)
  also have "g @ v @ r = (g @ butlast v) @ (last v # r)"
    using assms(2) by (simp add: append_butlast_last_id [symmetric] del: append_butlast_last_id)
  also have "take (length v) ((g @ butlast v) @ (last v # r)) = take (length v) (g @ butlast v)"
    using len by simp
  finally have "v = take (length v) (g @ butlast v)" .
  then have "prefix v (g @ butlast v)"
    by (metis take_is_prefix)
  then show ?thesis by blast
qed

lemma str_replace_leftmost:
  assumes "\<not> py_in (x # xs) (g @ butlast (x # xs))"
  shows "str_replace (x # xs) new (g @ (x # xs) @ r) = g @ new @ str_replace (x # xs) new r"
  using assms
proof (induction g)
  case Nil
  show ?case using str_replace_prefix [of x xs new r] by simp
next
  case (Cons c g)
  from Cons.prems have np: "\<not> prefix (x # xs) ((c # g) @ butlast (x # xs))"
    and ns: "\<not> py_in (x # xs) (g @ butlast (x # xs))"
    unfolding append_Cons py_in_Cons by blast+
  have "\<not> prefix (x # xs) ((c # g) @ (x # xs) @ r)"
  proof
    assume "prefix (x # xs) ((c # g) @ (x # xs) @ r)"
    then have "prefix (x # xs) ((c # g) @ butlast (x # xs)) \<or> c # g = []"
      by (rule prefix_shorter_text) simp
    with np show False by simp
  qed
  then have "\<not> prefix (x # xs) (c # (g @ (x # xs) @ r))" by simp
  then have "str_replace (x # xs) new (c # (g @ (x # xs) @ r)) =
      c # str_replace (x # xs) new (g @ (x # xs) @ r)"
    unfolding str_replace.simps(3) by (rule if_not_P)
  with Cons.IH [OF ns] show ?case by simp
qed

lemma cut_at_single: "cut_at v s [g] = (s = g \<and> \<not> py_in v g)"
  by (auto simp: cut_at_def)

lemma cut_at_Cons:
  "cut_at v s (g # h # gs) =
     (\<not> py_in v (g @ butlast v) \<and> s = g @ v @ str_join v (h # gs) \<and>
      cut_at v (str_join v (h # gs)) (h # gs))"
  by (auto simp: cut_at_def)

lemma cut_at_nonempty: "cut_at v s gaps \<Longrightarrow> v \<noteq> []"
  by (cases "last gaps") (auto simp: cut_at_def)

lemma cut_at_replace:
  assumes "cut_at v s gaps"
  shows "str_replace v new s = str_join new gaps"
proof -
  from assms have "v \<noteq> []" by (rule cut_at_nonempty)
  then obtain x xs where v: "v = x # xs" by (cases v) auto
  from assms show ?thesis
    unfolding v
  proof (induction gaps arbitrary: s)
    case Nil
    then show ?case by (simp add: cut_at_def)
  next
    case (Cons g gs)
    note cut = Cons.prems and IH = Cons.IH
    show ?case
    proof (cases gs)
      case Nil
      with cut show ?thesis
        by (simp add: cut_at_single str_replace_absent)
    next
      case rest: (Cons h hs)
      from cut have
        a: "\<not> py_in (x # xs) (g @ butlast (x # xs))" and
        b: "s = g @ (x # xs) @ str_join (x # xs) (h # hs)" and
        c: "cut_at (x # xs) (str_join (x # xs) (h # hs)) (h # hs)"
        unfolding rest cut_at_Cons by blast+
      from IH [unfolded rest, OF c]
      have "str_replace (x # xs) new (str_join (x # xs) (h # hs)) = str_join new (h # hs)" .
      with str_replace_leftmost [OF a, of new "str_join (x # xs) (h # hs)"] b
      show ?thesis unfolding rest by simp
    qed
  qed
qed

lemma not_py_in_butlast: "v \<noteq> [] \<Longrightarrow> \<not> py_in v (butlast v)"
proof
  assume "v \<noteq> []" and "py_in v (butlast v)"
  then have h: "length v \<le> length (butlast v)" by (intro py_in_length)
  have b: "length (butlast v) = length v - 1" by (rule length_butlast)
  have p: "0 < length v" using \<open>v \<noteq> []\<close> by simp
  from h b p show False by arith
qed

lemma cut_at_exists: "\<exists>gaps. cut_at (x # xs) s gaps"
proof (induction s rule: length_induct)
  case (1 s)
  let ?v = "x # xs"
  show ?case
  proof (cases "py_in ?v s")
    case False
    then have "cut_at ?v s [s]" by (simp add: cut_at_single)
    then show ?thesis by blast
  next
    case True
    then show ?thesis
    proof (cases s)
      case Nil
      with True show ?thesis by simp
    next
      case (Cons c cs)
      show ?thesis
      proof (cases "prefix ?v s")
        case p: True
        then obtain r where r: "s = ?v @ r" by (auto simp: prefix_def)
        then have "length r < length s" by simp
        with 1 obtain gaps where g: "cut_at ?v r gaps" by blast
        then obtain h hs where hs: "gaps = h # hs" by (cases gaps) (auto simp: cut_at_def)
        from g have j: "r = str_join ?v (h # hs)" by (simp add: cut_at_def hs)
        have "\<not> py_in ?v ([] @ butlast ?v)"
          using not_py_in_butlast [of ?v] by simp
        with g j r have "cut_at ?v s ([] # h # hs)"
          unfolding cut_at_Cons hs by simp
        then show ?thesis by blast
      next
        case np: False
        have "length cs < length s" using Cons by simp
        with 1 obtain gaps where g: "cut_at ?v cs gaps" by blast
        then obtain h hs where hs: "gaps = h # hs" by (cases gaps) (auto simp: cut_at_def)
        show ?thesis
        proof (cases hs)
          case Nil
          with g hs have "cs = h" "\<not> py_in ?v h" by (simp_all add: cut_at_single)
          with np Cons have "\<not> py_in ?v (c # h)" by simp
          with \<open>cs = h\<close> Cons have "cut_at ?v s [c # h]" by (simp add: cut_at_single)
          then show ?thesis by blast
        next
          case rest: (Cons k ks)
          from g have
            a: "\<not> py_in ?v (h @ butlast ?v)" and
            b: "cs = h @ ?v @ str_join ?v (k # ks)" and
            c: "cut_at ?v (str_join ?v (k # ks)) (k # ks)"
            unfolding hs rest cut_at_Cons by blast+
          have "\<not> prefix ?v ((c # h) @ butlast ?v)"
          proof
            assume "prefix ?v ((c # h) @ butlast ?v)"
            moreover have "prefix ((c # h) @ butlast ?v) s"
              unfolding Cons b
              by (simp add: prefix_def) (metis append_butlast_last_id append_Cons append_assoc list.distinct(1))
            ultimately have "prefix ?v s" by (rule prefix_order.trans)
            with np show False by blast
          qed
          with a have "\<not> py_in ?v ((c # h) @ butlast ?v)"
            by simp
          with b c Cons have "cut_at ?v s ((c # h) # k # ks)"
            unfolding cut_at_Cons by simp
          then show ?thesis by blast
        qed
      qed
    qed
  qed
qed

lemma rewrite_steps_sound:
  "rewrite_steps vs s t \<Longrightarrow> t = foldl (\<lambda>h v. str_replace v (new_src v) h) s vs"
proof (induction rule: rewrite_steps.induct)
  case (no_step s)
  show ?case by simp
next
  case (step v s gaps vs t)
  from step.hyps(1) have "str_replace v (new_src v) s = str_join (new_src v) gaps"
    by (rule cut_at_replace)
  with step.IH show ?case by simp
qed

lemma rewrite_steps_complete:
  "\<forall>v\<in>set vs. v \<noteq> [] \<Longrightarrow> rewrite_steps vs s (foldl (\<lambda>h v. str_replace v (new_src v) h) s vs)"
proof (induction vs arbitrary: s)
  case Nil
  show ?case by (simp add: rewrite_steps.no_step)
next
  case (Cons v vs)
  then obtain x xs where v: "v = x # xs" by (cases v) auto
  from cut_at_exists [of x xs s] obtain gaps where g: "cut_at v s gaps"
    unfolding v by blast
  then have r: "str_replace v (new_src v) s = str_join (new_src v) gaps"
    by (rule cut_at_replace)
  from Cons have "rewrite_steps vs (str_join (new_src v) gaps)
      (foldl (\<lambda>h v. str_replace v (new_src v) h) (str_join (new_src v) gaps) vs)"
    by simp
  with g have "rewrite_steps (v # vs) s
      (foldl (\<lambda>h v. str_replace v (new_src v) h) (str_join (new_src v) gaps) vs)"
    by (rule rewrite_steps.step)
  with r show ?case by simp
qed

lemma foldl_rewrite_src_filter:
  "foldl rewrite_src html vs =
     foldl (\<lambda>h v. str_replace v (new_src v) h) html (filter (py_in ''IMS-CC-FILEBASE'') vs)"
proof (induction vs arbitrary: html)
  case Nil
  show ?case by simp
next
  case (Cons v vs)
  have "rewrite_src html v =
      (if py_in ''IMS-CC-FILEBASE'' v then str_replace v (new_src v) html else html)"
    by (simp add: rewrite_src_def)
  with Cons [of "rewrite_src html v"] show ?case by simp
qed

lemma token_nonempty: "py_in ''IMS-CC-FILEBASE'' v \<Longrightarrow> v \<noteq> []"
  by (cases v) simp_all

lemma static_links_steps:
  "rewrite_steps (filter (py_in ''IMS-CC-FILEBASE'') (findall_src html)) html t \<longleftrightarrow>
     t = process_static_links html"
proof
  assume "rewrite_steps (filter (py_in ''IMS-CC-FILEBASE'') (findall_src html)) html t"
  then show "t = process_static_links html"
    unfolding process_static_links_def foldl_rewrite_src_filter by (rule rewrite_steps_sound)
next
  assume t: "t = process_static_links html"
  have "\<forall>v\<in>set (filter (py_in ''IMS-CC-FILEBASE'') (findall_src html)). v \<noteq> []"
    by (auto dest: token_nonempty)
  then show "rewrite_steps (filter (py_in ''IMS-CC-FILEBASE'') (findall_src html)) html t"
    unfolding t process_static_links_def foldl_rewrite_src_filter by (rule rewrite_steps_complete)
qed

lemma escape_length: "escape s = Some (b, rest) \<Longrightarrow> length s = length rest + 3"
  by (auto simp: escape_def split: list.splits if_splits)

lemma unquote_length:
  "length (unquote s) \<le> length s \<and> (length (unquote s) = length s \<longrightarrow> unquote s = s)"
proof (induction s rule: length_induct)
  case (1 s)
  show ?case
  proof (cases s)
    case Nil
    then show ?thesis by simp
  next
    case (Cons c cs)
    show ?thesis
    proof (cases "escape (c # cs)")
      case None
      have "length cs < length s" using Cons by simp
      with 1 have "length (unquote cs) \<le> length cs \<and>
          (length (unquote cs) = length cs \<longrightarrow> unquote cs = cs)"
        by blast
      with None Cons show ?thesis by simp
    next
      case (Some e)
      obtain b1 rest where e: "e = (b1, rest)" by (cases e)
      from escape_length [OF Some [unfolded e]] have l: "length s = length rest + 3"
        unfolding Cons .
      then have "length rest < length s" by simp
      with 1 have r: "length (unquote rest) \<le> length rest" by blast
      have "length (unquote s) < length s"
      proof (cases "escape rest")
        case None
        with Some e r l show ?thesis unfolding Cons by simp
      next
        case e2: (Some e')
        obtain b2 rest' where e': "e' = (b2, rest')" by (cases e')
        from escape_length [OF e2 [unfolded e']] have l': "length rest = length rest' + 3" .
        then have "length rest' < length s" using l by simp
        with 1 have "length (unquote rest') \<le> length rest'" by blast
        with Some e e2 e' r l l' show ?thesis unfolding Cons by simp
      qed
      then show ?thesis by simp
    qed
  qed
qed

lemma str_replace_length_le:
  assumes "length new \<le> Suc (length xs)"
  shows "length (str_replace (x # xs) new s) \<le> length s"
proof (induction s rule: length_induct)
  case (1 s)
  show ?case
  proof (cases s)
    case Nil
    then show ?thesis by simp
  next
    case (Cons c cs)
    show ?thesis
    proof (cases "prefix (x # xs) s")
      case True
      then obtain r where r: "s = (x # xs) @ r" by (auto simp: prefix_def)
      then have "length r < length s" by simp
      with 1 have "length (str_replace (x # xs) new r) \<le> length r" by blast
      with assms show ?thesis unfolding r str_replace_prefix by simp
    next
      case False
      then have "str_replace (x # xs) new (c # cs) = c # str_replace (x # xs) new cs"
        unfolding Cons str_replace.simps(3) by (rule if_not_P)
      moreover have "length cs < length s" using Cons by simp
      with 1 have "length (str_replace (x # xs) new cs) \<le> length cs" by blast
      ultimately show ?thesis unfolding Cons by simp
    qed
  qed
qed

lemma str_replace_length_less:
  assumes "length new < Suc (length xs)" and "py_in (x # xs) s"
  shows "length (str_replace (x # xs) new s) < length s"
  using assms(2)
proof (induction s)
  case Nil
  then show ?case by simp
next
  case (Cons c cs)
  show ?case
  proof (cases "prefix (x # xs) (c # cs)")
    case True
    then obtain r where r: "c # cs = (x # xs) @ r" by (auto simp: prefix_def)
    have "length (str_replace (x # xs) new r) \<le> length r"
      using assms(1) by (intro str_replace_length_le) simp
    with assms(1) show ?thesis unfolding r str_replace_prefix by simp
  next
    case False
    then have e: "str_replace (x # xs) new (c # cs) = c # str_replace (x # xs) new cs"
      unfolding str_replace.simps(3) by (rule if_not_P)
    from False Cons.prems have "py_in (x # xs) cs" unfolding py_in_Cons by blast
    with Cons.IH show ?thesis unfolding e by simp
  qed
qed

lemma str_replace_same: "str_replace (x # xs) (x # xs) s = s"
proof -
  from cut_at_exists [of x xs s] obtain gaps where g: "cut_at (x # xs) s gaps" by blast
  then have "str_replace (x # xs) (x # xs) s = str_join (x # xs) gaps"
    by (rule cut_at_replace)
  with g show ?thesis by (simp add: cut_at_def)
qed

lemma new_src_length:
  "length (new_src v) \<le> length v \<and> (length (new_src v) = length v \<longrightarrow> new_src v = v)"
proof -
  let ?u = "unquote v"
  have u: "length ?u \<le> length v" "length ?u = length v \<longrightarrow> ?u = v"
    using unquote_length [of v] by blast+
  have le: "length (new_src v) \<le> length ?u"
    unfolding new_src_def by (rule str_replace_length_le) simp
  have eq: "new_src v = ?u" if "length (new_src v) = length ?u"
  proof (cases "py_in ''$IMS-CC-FILEBASE$'' ?u")
    case True
    have "length (new_src v) < length ?u"
      unfolding new_src_def by (rule str_replace_length_less [OF _ True]) simp
    with that show ?thesis by simp
  next
    case False
    then show ?thesis unfolding new_src_def by (rule str_replace_absent)
  qed
  from u le eq show ?thesis by auto
qed

lemma lazy_body_text: "lazy_body s = Some (b, r) \<Longrightarrow> s = b @ dquote # r"
  by (induction s arbitrary: b r) (auto split: if_splits)

lemma src_match_text:
  assumes "src_match s = Some (g, rest)"
  shows "suffix (g @ dquote # rest) s"
proof -
  from assms obtain r r2 c r4 b where
    r: "strip_prefix ''src'' s = Some r" and
    r2: "dropWhile is_space r = CHR ''='' # r2" and
    r4: "dropWhile is_space r2 = dquote # c # r4" and
    b: "lazy_body r4 = Some (b, rest)" and
    g: "g = c # b"
    by (auto simp: src_match_def split: option.splits list.splits if_splits)
  from b have "r4 = b @ dquote # rest" by (rule lazy_body_text)
  with g have "c # r4 = g @ dquote # rest" by simp
  then have "suffix (g @ dquote # rest) (dquote # c # r4)"
    by (simp add: suffix_ConsI)
  also have "suffix (dquote # c # r4) r2"
    using suffix_dropWhile [of is_space r2] unfolding r4 .
  also have "suffix r2 (CHR ''='' # r2)" by (simp add: suffix_ConsI)
  also have "suffix (CHR ''='' # r2) r"
    using suffix_dropWhile [of is_space r] unfolding r2 .
  also have "suffix r s"
    using r by (auto simp: strip_prefix_def suffix_drop split: if_splits)
  finally show ?thesis .
qed

lemma findall_src_sublist: "v \<in> set (findall_src s) \<Longrightarrow> sublist v s"
proof (induction s arbitrary: v rule: findall_src.induct)
  case 1
  then show ?case by simp
next
  case (2 c cs)
  show ?case
  proof (cases "src_match (c # cs)")
    case None
    with "2.prems" have "v \<in> set (findall_src cs)" by simp
    with None "2.IH" have "sublist v cs" by blast
    then show ?thesis by (simp add: sublist_Cons_right)
  next
    case (Some m)
    obtain g rest where m: "m = (g, rest)" by (cases m)
    from Some m have sm: "src_match (c # cs) = Some (g, rest)" by simp
    then have suf: "suffix (g @ dquote # rest) (c # cs)" by (rule src_match_text)
    from "2.prems" sm have "v = g \<or> v \<in> set (findall_src rest)" by simp
    then show ?thesis
    proof
      assume "v = g"
      then have "sublist v (g @ dquote # rest)" by simp
      also from suf have "sublist (g @ dquote # rest) (c # cs)" by (rule suffix_imp_sublist)
      finally show ?thesis .
    next
      assume "v \<in> set (findall_src rest)"
      with Some m "2.IH" have "sublist v rest" by blast
      also have "sublist rest (g @ dquote # rest)"
        by (intro suffix_imp_sublist) (simp add: suffix_def)
      also from suf have "sublist (g @ dquote # rest) (c # cs)" by (rule suffix_imp_sublist)
      finally show ?thesis .
    qed
  qed
qed

lemma findall_src_py_in: "v \<in> set (findall_src s) \<Longrightarrow> py_in v s"
  by (simp add: py_in_sublist findall_src_sublist)

lemma rewrite_src_length: "length (rewrite_src h v) \<le> length h"
proof (cases "py_in ''IMS-CC-FILEBASE'' v")
  case False
  then show ?thesis by (simp add: rewrite_src_def)
next
  case True
  then obtain x xs where v: "v = x # xs" by (cases v) auto
  have "length (new_src v) \<le> length v" using new_src_length [of v] by blast
  then have "length (str_replace (x # xs) (new_src v) h) \<le> length h"
    unfolding v by (intro str_replace_length_le) simp
  with True show ?thesis by (simp add: rewrite_src_def v)
qed

lemma foldl_rewrite_src_length: "length (foldl rewrite_src h vs) \<le> length h"
proof (induction vs arbitrary: h)
  case Nil
  show ?case by simp
next
  case (Cons v vs)
  have "length (foldl rewrite_src (rewrite_src h v) vs) \<le> length (rewrite_src h v)"
    by (rule Cons)
  also have "\<dots> \<le> length h" by (rule rewrite_src_length)
  finally show ?case by simp
qed

lemma rewrite_src_changes:
  assumes "py_in ''IMS-CC-FILEBASE'' v" and "py_in v h" and "new_src v \<noteq> v"
  shows "length (rewrite_src h v) < length h"
proof -
  from assms(1) obtain x xs where v: "v = x # xs" by (cases v) auto
  from assms(3) have "length (new_src v) < length v"
    using new_src_length [of v] by (simp add: le_neq_implies_less)
  then have "length (str_replace (x # xs) (new_src v) h) < length h"
    using assms(2) unfolding v by (intro str_replace_length_less) simp_all
  with assms(1) show ?thesis by (simp add: rewrite_src_def v)
qed

lemma rewrite_src_fixed:
  assumes "py_in ''IMS-CC-FILEBASE'' v \<longrightarrow> new_src v = v"
  shows "rewrite_src h v = h"
proof (cases "py_in ''IMS-CC-FILEBASE'' v")
  case False
  then show ?thesis by (simp add: rewrite_src_def)
next
  case True
  then obtain x xs where v: "v = x # xs" by (cases v) auto
  from True assms have "new_src v = v" by blast
  with True show ?thesis
    using str_replace_same [of x xs h] by (simp add: rewrite_src_def v)
qed

lemma foldl_rewrite_src_fixed:
  assumes "\<forall>v\<in>set vs. py_in v h"
  shows "foldl rewrite_src h vs = h \<longleftrightarrow>
           (\<forall>v\<in>set vs. py_in ''IMS-CC-FILEBASE'' v \<longrightarrow> new_src v = v)"
  using assms
proof (induction vs)
  case Nil
  show ?case by simp
next
  case (Cons v vs)
  from Cons.prems have vh: "py_in v h" and rest: "\<forall>w\<in>set vs. py_in w h" by simp_all
  show ?case
  proof (cases "py_in ''IMS-CC-FILEBASE'' v \<longrightarrow> new_src v = v")
    case True
    then have "rewrite_src h v = h" by (rule rewrite_src_fixed)
    with Cons.IH [OF rest] True show ?thesis by simp
  next
    case False
    then have "length (rewrite_src h v) < length h"
      using vh by (intro rewrite_src_changes) simp_all
    moreover have "length (foldl rewrite_src (rewrite_src h v) vs) \<le> length (rewrite_src h v)"
      by (rule foldl_rewrite_src_length)
    ultimately have "length (foldl rewrite_src h (v # vs)) < length h" by simp
    then have "foldl rewrite_src h (v # vs) \<noteq> h" by auto
    with False show ?thesis by auto
  qed
qed

lemma process_static_links_fixed:
  "process_static_links y = y \<longleftrightarrow>
     (\<forall>v\<in>set (findall_src y). py_in ''IMS-CC-FILEBASE'' v \<longrightarrow> new_src v = v)"
  unfolding process_static_links_def
  by (rule foldl_rewrite_src_fixed) (simp add: findall_src_py_in)

text \<open>
  C4, as the code has it: the output is the input after one step for each captured \<open>src\<close>
  value that contains \<open>IMS-CC-FILEBASE\<close>, in the order of capture, and after nothing
  else. A step finds the occurrences of the value in the current text from the left,
  without overlap and wherever they are, in a \<open>src\<close> attribute or not, and puts the
  rewritten value in the place of each; the pieces between them stay byte for byte. A
  captured value without the token causes no step. The relation holds of the output and
  of no other text. The statement is for texts whose values with the token decode inside
  the alphabet, where \<open>new_src\<close> is what the code computes.
\<close>

theorem static_links_frame:
  assumes "\<forall>v\<in>set (findall_src html). py_in ''IMS-CC-FILEBASE'' v \<longrightarrow> unquote_exact v"
  shows "rewrite_steps (filter (py_in ''IMS-CC-FILEBASE'') (findall_src html)) html t \<longleftrightarrow>
           t = process_static_links html"
  by (rule static_links_steps)

theorem static_links_frame_witness:
  \<open>rewrite_steps [''$IMS-CC-FILEBASE$/a.png'']
     ''<a href="$IMS-CC-FILEBASE$/a.png"><img src="$IMS-CC-FILEBASE$/a.png"></a>''
     ''<a href="/static/a.png"><img src="/static/a.png"></a>''\<close>
proof -
  let ?x = \<open>''<a href="$IMS-CC-FILEBASE$/a.png"><img src="$IMS-CC-FILEBASE$/a.png"></a>''\<close>
  have d: "\<forall>v\<in>set (findall_src ?x). py_in ''IMS-CC-FILEBASE'' v \<longrightarrow> unquote_exact v"
    by code_simp
  have f: "filter (py_in ''IMS-CC-FILEBASE'') (findall_src ?x) = [''$IMS-CC-FILEBASE$/a.png'']"
    by code_simp
  have p: \<open>process_static_links ?x = ''<a href="/static/a.png"><img src="/static/a.png"></a>''\<close>
    by code_simp
  from static_links_frame [OF d, of \<open>''<a href="/static/a.png"><img src="/static/a.png"></a>''\<close>] p
  show ?thesis unfolding f by simp
qed

text \<open>
  C4, as stated, fails: the value of a \<open>src\<close> attribute is replaced wherever it occurs,
  here in an \<open>href\<close> attribute as well.
\<close>

theorem static_links_rewrites_href:
  \<open>process_static_links ''<a href="$IMS-CC-FILEBASE$/a.png"><img src="$IMS-CC-FILEBASE$/a.png"></a>'' =
     ''<a href="/static/a.png"><img src="/static/a.png"></a>''\<close>
  by code_simp

text \<open>
  C3, as the code has it: rewriting a second time changes nothing exactly when every
  \<open>src\<close> value of the rewritten text that contains \<open>IMS-CC-FILEBASE\<close> is left as it is
  by decoding and by the replacement of \<open>$IMS-CC-FILEBASE$\<close>: it has no escape to decode
  and no \<open>$IMS-CC-FILEBASE$\<close> in it. The statement is for texts whose values with the
  token, before and after the first pass, decode inside the alphabet.
\<close>

theorem static_links_idempotent_iff:
  assumes "\<forall>v\<in>set (findall_src x). py_in ''IMS-CC-FILEBASE'' v \<longrightarrow> unquote_exact v"
    and "\<forall>v\<in>set (findall_src (process_static_links x)).
           py_in ''IMS-CC-FILEBASE'' v \<longrightarrow> unquote_exact v"
  shows "process_static_links (process_static_links x) = process_static_links x \<longleftrightarrow>
           (\<forall>v\<in>set (findall_src (process_static_links x)).
              py_in ''IMS-CC-FILEBASE'' v \<longrightarrow> new_src v = v)"
  by (rule process_static_links_fixed)

theorem static_links_idempotent_iff_witness:
  \<open>process_static_links (process_static_links
      ''<img src="$IMS-CC-FILEBASE$/IMS-CC-FILEBASE/a%20b.png">'') =
   process_static_links ''<img src="$IMS-CC-FILEBASE$/IMS-CC-FILEBASE/a%20b.png">'' \<and>
   process_static_links ''<img src="$IMS-CC-FILEBASE$/IMS-CC-FILEBASE/a%20b.png">'' =
     ''<img src="/static/IMS-CC-FILEBASE/a b.png">''\<close>
proof -
  let ?x = \<open>''<img src="$IMS-CC-FILEBASE$/IMS-CC-FILEBASE/a%20b.png">''\<close>
  have p: \<open>process_static_links ?x = ''<img src="/static/IMS-CC-FILEBASE/a b.png">''\<close>
    by code_simp
  have d1: "\<forall>v\<in>set (findall_src ?x). py_in ''IMS-CC-FILEBASE'' v \<longrightarrow> unquote_exact v"
    by code_simp
  have d2: "\<forall>v\<in>set (findall_src (process_static_links ?x)).
              py_in ''IMS-CC-FILEBASE'' v \<longrightarrow> unquote_exact v"
    unfolding p by code_simp
  have fixed: "\<forall>v\<in>set (findall_src (process_static_links ?x)).
              py_in ''IMS-CC-FILEBASE'' v \<longrightarrow> new_src v = v"
    unfolding p by code_simp
  from static_links_idempotent_iff [OF d1 d2] fixed p show ?thesis by simp
qed

text \<open>
  C3, as stated, fails: a value that contains the token without the dollar signs keeps it,
  and each pass decodes the value once more.
\<close>

theorem static_links_not_idempotent:
  \<open>process_static_links (process_static_links ''<img src="IMS-CC-FILEBASE/a%2520b.png">'') \<noteq>
     process_static_links ''<img src="IMS-CC-FILEBASE/a%2520b.png">''\<close>
  by code_simp

subsection \<open>Tree mapper\<close>

lemma add_children_decorated:
  assumes "add_children qti cart (Element tg as cs) element_data nodes tags = (element', None)"
  shows "\<exists>ks. element' = Element tg as (cs @ ks) \<and>
              list_all2 (decorated qti cart element_data tags) nodes ks"
  using assms
proof (induction nodes arbitrary: cs)
  case Nil
  then show ?case by simp
next
  case (Cons child nodes)
  obtain ttl idref kids where d: "element_data = Outline ttl idref kids"
    by (cases element_data)
  let ?set = "case ttl of None \<Rightarrow> Inr child | Some t \<Rightarrow> setAttribute ''display_name'' t child"
  from Cons.prems obtain child1 where c1: "?set = Inr child1"
    unfolding d by (cases ?set) simp_all
  show ?case
  proof (cases kids)
    case None
    with Cons.prems c1 have "add_children qti cart (Element tg as (cs @ [child1])) element_data nodes tags
        = (element', None)"
      unfolding d by simp
    from Cons.IH [OF this] obtain ks where
      ks: "element' = Element tg as ((cs @ [child1]) @ ks)"
          "list_all2 (decorated qti cart element_data tags) nodes ks"
      by blast
    have "decorated qti cart element_data tags child child1"
      using c1 None by (simp add: decorated_def d)
    with ks have "element' = Element tg as (cs @ child1 # ks) \<and>
        list_all2 (decorated qti cart element_data tags) (child # nodes) (child1 # ks)"
      by simp
    then show ?thesis by blast
  next
    case (Some course_data)
    obtain child2 err where r: "add_olx_nodes qti cart child1 course_data (tl tags) = (child2, err)"
      by (cases "add_olx_nodes qti cart child1 course_data (tl tags)")
    from Cons.prems c1 Some r have e: "err = None"
      unfolding d by (cases err) simp_all
    with Cons.prems c1 Some r have "add_children qti cart (Element tg as (cs @ [child2])) element_data nodes tags
        = (element', None)"
      unfolding d by simp
    from Cons.IH [OF this] obtain ks where
      ks: "element' = Element tg as ((cs @ [child2]) @ ks)"
          "list_all2 (decorated qti cart element_data tags) nodes ks"
      by blast
    have "decorated qti cart element_data tags child child2"
      using c1 Some r e by (simp add: decorated_def d)
    with ks have "element' = Element tg as (cs @ child2 # ks) \<and>
        list_all2 (decorated qti cart element_data tags) (child # nodes) (child2 # ks)"
      by simp
    then show ?thesis by blast
  qed
qed

lemma add_olx_nodes_concat:
  assumes "add_olx_nodes qti cart (Element tg as cs) course_data tags = (element', None)"
  shows "\<exists>kss. element' = Element tg as (cs @ concat kss) \<and>
           list_all2 (\<lambda>element_data ks. \<exists>nodes.
                new_children qti cart element_data tags = Inr nodes \<and>
                list_all2 (decorated qti cart element_data tags) nodes ks)
             course_data kss"
  using assms
proof (induction course_data arbitrary: cs)
  case Nil
  then have "element' = Element tg as (cs @ concat [])" by simp
  then show ?case by blast
next
  case (Cons d ds)
  from Cons.prems obtain nodes where n: "new_children qti cart d tags = Inr nodes"
    by (cases "new_children qti cart d tags") simp_all
  obtain e1 err where r: "add_children qti cart (Element tg as cs) d nodes tags = (e1, err)"
    by (cases "add_children qti cart (Element tg as cs) d nodes tags")
  from Cons.prems n r have e: "err = None"
    by (cases err) simp_all
  from add_children_decorated [OF r [unfolded e]] obtain ks where
    ks: "e1 = Element tg as (cs @ ks)" "list_all2 (decorated qti cart d tags) nodes ks"
    by blast
  from Cons.prems n r e ks(1) have "add_olx_nodes qti cart (Element tg as (cs @ ks)) ds tags = (element', None)"
    by simp
  from Cons.IH [OF this] obtain kss where
    kss: "element' = Element tg as ((cs @ ks) @ concat kss)"
      "list_all2 (\<lambda>element_data ks. \<exists>nodes.
                new_children qti cart element_data tags = Inr nodes \<and>
                list_all2 (decorated qti cart element_data tags) nodes ks) ds kss"
    by blast
  from kss n ks(2) have "element' = Element tg as (cs @ concat (ks # kss)) \<and>
      list_all2 (\<lambda>element_data ks. \<exists>nodes.
                new_children qti cart element_data tags = Inr nodes \<and>
                list_all2 (decorated qti cart element_data tags) nodes ks) (d # ds) (ks # kss)"
    by auto
  then show ?case by blast
qed







lemma example_vertical:
  "add_olx_nodes example_qti example_cartridge (Element ''vertical'' [] [Element ''first'' [] []])
     [Outline (Some ''Q'') (Some ''q1'') None, Outline None None None] [] =
   (Element ''vertical'' []
      [Element ''first'' [] [],
       Element ''problem'' [(''display_name'', ''Q'')] [],
       Element ''problem'' [(''n'', ''2''), (''display_name'', ''Q'')] [],
       Element ''html'' [] [CDATASection ''<p>MISSING CONTENT</p>'']], None)"
  by code_simp

text \<open>
  C9: when the traversal ends without an exception, the children that the element had
  stay in front, in their order, and the new children are the concatenation, in the order
  of the outline nodes, of the nodes made for each outline node; the nodes of one outline
  node are those returned by the builder (at leaf depth) or the single container, each
  decorated, in the builder's order. Nothing is reordered.
\<close>

theorem tree_mapper_order:
  assumes "add_olx_nodes qti cart (Element tg as cs) course_data tags = (element', None)"
  shows "\<exists>kss. element' = Element tg as (cs @ concat kss) \<and>
           list_all2 (\<lambda>element_data ks. \<exists>nodes.
                new_children qti cart element_data tags = Inr nodes \<and>
                list_all2 (decorated qti cart element_data tags) nodes ks)
             course_data kss"
  using assms by (rule add_olx_nodes_concat)

theorem tree_mapper_order_witness:
  "\<exists>kss. Element ''vertical'' []
      [Element ''first'' [] [],
       Element ''problem'' [(''display_name'', ''Q'')] [],
       Element ''problem'' [(''n'', ''2''), (''display_name'', ''Q'')] [],
       Element ''html'' [] [CDATASection ''<p>MISSING CONTENT</p>'']] =
      Element ''vertical'' [] ([Element ''first'' [] []] @ concat kss) \<and>
     list_all2 (\<lambda>element_data ks. \<exists>nodes.
          new_children example_qti example_cartridge element_data [] = Inr nodes \<and>
          list_all2 (decorated example_qti example_cartridge element_data []) nodes ks)
       [Outline (Some ''Q'') (Some ''q1'') None, Outline None None None] kss"
  using tree_mapper_order [OF example_vertical] .

end
